theory Spec2Isabelle
  imports Main "HOL-Library.Word" "HOL-Library.Multiset"
begin

section \<open>The identifier pool of queue.cpp\<close>

text \<open>
  The development embeds the class \<open>ThreadIDPool\<close> of \<open>src/queue.cpp\<close> (lines 87-132) and the
  pthread wrappers it calls (lines 7-83). A C++ \<open>int\<close> is a 32-bit word read in two's
  complement. What the pthread library reports is not decided by the program, so every
  return code of a pthread call is a parameter of the function that makes the call.
  \<open>std::list::push_back\<close> is taken to succeed (no allocation failure).
\<close>

type_synonym cint = "32 word"

subsection \<open>Process outcomes and the macro DIE (lines 7-11)\<close>

datatype printf_arg = ArgInt int | ArgStr string

record exit_info =
  printed :: "(string \<times> printf_arg list) list"
  exit_code :: int

text \<open>
  A call either returns a value, ends the process through \<open>exit\<close>, never returns (the
  caller stays blocked inside \<open>pthread_cond_wait\<close>), or runs into undefined behaviour
  (\<open>front\<close> or \<open>pop_front\<close> of an empty \<open>std::list\<close>).
\<close>

datatype 'a outcome = Returned 'a | Exited exit_info | Blocked | Undefined

definition obind :: "'a outcome \<Rightarrow> ('a \<Rightarrow> 'b outcome) \<Rightarrow> 'b outcome" where
  "obind m f = (case m of Returned x \<Rightarrow> f x | Exited d \<Rightarrow> Exited d
                | Blocked \<Rightarrow> Blocked | Undefined \<Rightarrow> Undefined)"

text \<open>The value of \<open>__FILE__\<close>: the path of the source file as given to the compiler.\<close>

definition FILE_name :: string where
  "FILE_name = ''queue.cpp''"

text \<open>
  \<open>DIE(fmt, e)\<close> at source line \<open>line\<close>: two calls of \<open>printf\<close>, then \<open>exit(1)\<close>. The
  calls of \<open>printf\<close> are recorded with their format string and arguments.
\<close>

definition DIE :: "nat \<Rightarrow> string \<Rightarrow> cint \<Rightarrow> 'a outcome" where
  "DIE line fmt e = Exited
     \<lparr>printed = [(''Error detected at line %d in %s'' @ [CHR 0x0A],
                    [ArgInt (int line), ArgStr FILE_name]),
                 (fmt, [ArgInt (sint e)])],
      exit_code = 1\<rparr>"

subsection \<open>The pthread wrappers (lines 21-83)\<close>

text \<open>The argument \<open>e\<close> of each wrapper is the value its pthread call returned.\<close>

definition MutexInit :: "cint \<Rightarrow> unit outcome" where
  "MutexInit e = (if e \<noteq> 0 then DIE 25 ''pthread_mutex_init returned %d'' e else Returned ())"

definition MutexDestroy :: "cint \<Rightarrow> unit outcome" where
  "MutexDestroy e = (if e \<noteq> 0 then DIE 33 ''pthread_mutex_destroy returned %d'' e else Returned ())"

definition MutexLock :: "cint \<Rightarrow> unit outcome" where
  "MutexLock e = (if e \<noteq> 0 then DIE 41 ''pthread_mutex_lock returned %d'' e else Returned ())"

definition MutexUnlock :: "cint \<Rightarrow> unit outcome" where
  "MutexUnlock e = (if e \<noteq> 0 then DIE 49 ''pthread_mutex_unlock returned %d'' e else Returned ())"

definition CondInit :: "cint \<Rightarrow> unit outcome" where
  "CondInit e = (if e \<noteq> 0 then DIE 57 ''pthread_cond_init returned %d'' e else Returned ())"

definition CondDestroy :: "cint \<Rightarrow> unit outcome" where
  "CondDestroy e = (if e \<noteq> 0 then DIE 65 ''pthread_cond_destroy returned %d'' e else Returned ())"

definition CondSignal :: "cint \<Rightarrow> unit outcome" where
  "CondSignal e = (if e \<noteq> 0 then DIE 73 ''pthread_cond_signal returned %d'' e else Returned ())"

definition CondWait :: "cint \<Rightarrow> unit outcome" where
  "CondWait e = (if e \<noteq> 0 then DIE 81 ''pthread_cond_wait returned %d'' e else Returned ())"

subsection \<open>The class ThreadIDPool (lines 87-132)\<close>

text \<open>
  Of the three members only \<open>indexList\<close> is data of the program; \<open>lock\<close> and
  \<open>pool_not_empty_condition\<close> are opaque pthread objects.
\<close>

record ThreadIDPool =
  indexList :: "cint list"

text \<open>\<open>std::list::front\<close> and \<open>pop_front\<close>; both are undefined on an empty list.\<close>

definition front :: "cint list \<Rightarrow> cint outcome" where
  "front l = (case l of [] \<Rightarrow> Undefined | v # _ \<Rightarrow> Returned v)"

definition pop_front :: "cint list \<Rightarrow> cint list outcome" where
  "pop_front l = (case l of [] \<Rightarrow> Undefined | _ # r \<Rightarrow> Returned r)"

definition push_back :: "cint \<Rightarrow> cint list \<Rightarrow> cint list" where
  "push_back i l = l @ [i]"

text \<open>
  The loop of lines 97-98, \<open>for (int i = 0; i < n_thread; i++) indexList.push_back(i)\<close>.
  The increment never overflows: it is executed only when \<open>i < n_thread\<close>.
\<close>

function fill_loop :: "cint \<Rightarrow> cint \<Rightarrow> cint list \<Rightarrow> cint list" where
  "fill_loop i n_thread l =
     (if i <s n_thread then fill_loop (i + 1) n_thread (push_back i l) else l)"
  by pat_completeness auto

termination fill_loop
proof (relation "measure (\<lambda>(i, n_thread, l). nat (sint n_thread - sint i))")
  show "wf (measure (\<lambda>(i, n_thread, l). nat (sint n_thread - sint i)))" by simp
next
  fix i n_thread :: cint and l :: "cint list"
  assume "i <s n_thread"
  then have lt: "sint i < sint n_thread" by (simp add: word_sless_alt)
  moreover have "sint n_thread < 2 ^ 31" using sint_lt [of n_thread] by simp
  moreover have "- (2 ^ 31) \<le> sint i" using sint_ge [of i] by simp
  ultimately have "sint (i + 1) = sint i + 1"
    by (simp add: sint_word_ariths signed_take_bit_int_eq_self)
  with lt show "((i + 1, n_thread, push_back i l), (i, n_thread, l))
          \<in> measure (\<lambda>(i, n_thread, l). nat (sint n_thread - sint i))"
    by simp
qed

text \<open>\<open>initializePool\<close> (lines 94-101).\<close>

definition initializePool :: "cint \<Rightarrow> cint \<Rightarrow> cint \<Rightarrow> ThreadIDPool \<Rightarrow> ThreadIDPool outcome" where
  "initializePool n_thread e_mutex e_cond p =
     (let p1 = p\<lparr>indexList := []\<rparr>;
          p2 = p1\<lparr>indexList := fill_loop 0 n_thread (indexList p1)\<rparr>
      in obind (MutexInit e_mutex) (\<lambda>_.
         obind (CondInit e_cond) (\<lambda>_.
         Returned p2)))"

text \<open>\<open>destroyPool\<close> (lines 103-108).\<close>

definition destroyPool :: "cint \<Rightarrow> cint \<Rightarrow> ThreadIDPool \<Rightarrow> ThreadIDPool outcome" where
  "destroyPool e_mutex e_cond p =
     (let p1 = p\<lparr>indexList := []\<rparr>
      in obind (MutexDestroy e_mutex) (\<lambda>_.
         obind (CondDestroy e_cond) (\<lambda>_.
         Returned p1)))"

text \<open>
  The loop of lines 114-115, \<open>while (indexList.empty()) CondWait(...)\<close>, as seen by the
  calling thread. \<open>pthread_cond_wait\<close> gives up the mutex while it waits, so other threads
  may change \<open>indexList\<close> before it returns: each element \<open>(e, l)\<close> of \<open>ws\<close> is one return
  of \<open>pthread_cond_wait\<close>, with its return code \<open>e\<close> and the contents \<open>l\<close> of \<open>indexList\<close>
  at that moment (the mutex is held again). A wakeup that finds the list still empty is
  a spurious one. When \<open>ws\<close> is used up the thread is never woken again.
\<close>

primrec wait_loop :: "(cint \<times> cint list) list \<Rightarrow> ThreadIDPool \<Rightarrow> ThreadIDPool outcome" where
  "wait_loop [] p = (if indexList p = [] then Blocked else Returned p)"
| "wait_loop (w # ws) p =
     (if indexList p = []
      then obind (CondWait (fst w)) (\<lambda>_. wait_loop ws (p\<lparr>indexList := snd w\<rparr>))
      else Returned p)"

text \<open>\<open>getIndexBlocking\<close> (lines 110-122).\<close>

definition getIndexBlocking ::
  "cint \<Rightarrow> (cint \<times> cint list) list \<Rightarrow> cint \<Rightarrow> ThreadIDPool \<Rightarrow> (cint \<times> ThreadIDPool) outcome" where
  "getIndexBlocking e_lock ws e_unlock p =
     obind (MutexLock e_lock) (\<lambda>_.
     obind (wait_loop ws p) (\<lambda>p1.
     obind (front (indexList p1)) (\<lambda>value.
     obind (pop_front (indexList p1)) (\<lambda>l.
     obind (MutexUnlock e_unlock) (\<lambda>_.
     Returned (value, p1\<lparr>indexList := l\<rparr>))))))"

text \<open>\<open>returnIndex\<close> (lines 124-130).\<close>

definition returnIndex ::
  "cint \<Rightarrow> cint \<Rightarrow> cint \<Rightarrow> cint \<Rightarrow> ThreadIDPool \<Rightarrow> ThreadIDPool outcome" where
  "returnIndex e_lock e_signal e_unlock i p =
     obind (MutexLock e_lock) (\<lambda>_.
     (let p1 = p\<lparr>indexList := push_back i (indexList p)\<rparr>
      in obind (CondSignal e_signal) (\<lambda>_.
         obind (MutexUnlock e_unlock) (\<lambda>_.
         Returned p1))))"

subsection \<open>Sequences of calls by a single caller\<close>

text \<open>
  A caller that is alone in the process: every pthread call succeeds and nobody else
  touches the pool, so a call of \<open>getIndexBlocking\<close> that has to wait is never woken.
\<close>

definition acquire :: "ThreadIDPool \<Rightarrow> (cint \<times> ThreadIDPool) outcome" where
  "acquire p = getIndexBlocking 0 [] 0 p"

definition release :: "cint \<Rightarrow> ThreadIDPool \<Rightarrow> ThreadIDPool outcome" where
  "release i p = returnIndex 0 0 0 i p"

primrec release_all :: "cint list \<Rightarrow> ThreadIDPool \<Rightarrow> ThreadIDPool outcome" where
  "release_all [] p = Returned p"
| "release_all (r # rs) p = obind (release r p) (release_all rs)"

primrec acquire_n :: "nat \<Rightarrow> ThreadIDPool \<Rightarrow> (cint list \<times> ThreadIDPool) outcome" where
  "acquire_n 0 p = Returned ([], p)"
| "acquire_n (Suc k) p =
     obind (acquire p) (\<lambda>(v, p1).
     obind (acquire_n k p1) (\<lambda>(vs, p2).
     Returned (v # vs, p2)))"

text \<open>The identifiers \<open>0, 1, ..., n - 1\<close> in ascending order, as values of type \<open>int\<close> of C++.\<close>

definition ids_upto :: "cint \<Rightarrow> cint list" where
  "ids_upto n = map of_nat [0..<nat (sint n)]"

section \<open>Threads calling the pool concurrently\<close>

text \<open>
  Several threads execute \<open>getIndexBlocking\<close> and \<open>returnIndex\<close> on the one global
  pool, statement by statement and interleaved in any order. A program counter says
  which statement of which function a thread executes next:

  \<^item> \<open>G_lock\<close>: line 113, \<open>MutexLock(&lock)\<close>, the local \<open>value\<close> being \<open>-1\<close> and unread;
  \<^item> \<open>G_test\<close>: line 114, the test \<open>indexList.empty()\<close> of the loop;
  \<^item> \<open>G_condwait\<close>: line 115, the call of \<open>CondWait\<close>;
  \<^item> \<open>G_waiting\<close>: inside \<open>pthread_cond_wait\<close>, the mutex given up, not yet woken;
  \<^item> \<open>G_wake\<close>: inside \<open>pthread_cond_wait\<close>, woken, about to take the mutex again
    and return to the loop;
  \<^item> \<open>G_front\<close>: line 117, \<open>value = indexList.front()\<close>;
  \<^item> \<open>G_pop v\<close>: line 118, \<open>indexList.pop_front()\<close>, with \<open>value = v\<close>;
  \<^item> \<open>G_unlock v\<close>: line 120, \<open>MutexUnlock(&lock)\<close>;
  \<^item> \<open>G_return v\<close>: line 121, \<open>return value\<close>;
  \<^item> \<open>R_lock i\<close>, \<open>R_push i\<close>, \<open>R_signal i\<close>, \<open>R_unlock i\<close>: lines 126 to 129 of
    \<open>returnIndex(i)\<close>;
  \<^item> \<open>Idle\<close>: outside the pool's functions.
\<close>

datatype pc =
    Idle
  | G_lock | G_test | G_condwait | G_waiting | G_wake
  | G_front | G_pop cint | G_unlock cint | G_return cint
  | R_lock cint | R_push cint | R_signal cint | R_unlock cint

datatype status = Running | Terminated exit_info | Crashed

text \<open>
  The state of the process: the pool, the thread that holds the mutex \<open>lock\<close> (if any),
  the program counter of every thread, and whether the process still runs, has called
  \<open>exit\<close>, or has run into undefined behaviour. The field \<open>handed_out\<close> is a ghost: the
  identifiers that calls of \<open>getIndexBlocking\<close> have returned and that have not been
  passed to \<open>returnIndex\<close> since.
\<close>

record system =
  pool :: ThreadIDPool
  lock_owner :: "nat option"
  threads :: "pc list"
  handed_out :: "cint list"
  status :: status

text \<open>
  What can happen next to thread \<open>t\<close>: its caller enters \<open>getIndexBlocking\<close> or
  \<open>returnIndex(i)\<close>; it executes its next statement, \<open>Run e\<close>, where \<open>e\<close> is the code the
  pthread call of that statement returns (unused when the statement calls none); or,
  while it waits on the condition, it is woken, by a signal or spuriously.
\<close>

datatype action = Call_get | Call_return cint | Run cint | Wake

definition set_pc :: "nat \<Rightarrow> pc \<Rightarrow> system \<Rightarrow> system" where
  "set_pc t c s = s\<lparr>threads := (threads s)[t := c]\<rparr>"

text \<open>
  A statement that calls a pthread wrapper: when the wrapper calls \<open>DIE\<close> the process
  terminates, otherwise the statement goes on as \<open>k\<close> says (\<open>None\<close>: the thread cannot
  proceed yet).
\<close>

definition via :: "unit outcome \<Rightarrow> system \<Rightarrow> system option \<Rightarrow> system option" where
  "via r s k = (case r of Returned _ \<Rightarrow> k
                | Exited d \<Rightarrow> Some (s\<lparr>status := Terminated d\<rparr>)
                | Blocked \<Rightarrow> None
                | Undefined \<Rightarrow> Some (s\<lparr>status := Crashed\<rparr>))"

text \<open>\<open>pthread_mutex_lock\<close> returns 0 only once the mutex is free, and then \<open>t\<close> owns it.\<close>

definition take_lock :: "nat \<Rightarrow> pc \<Rightarrow> system \<Rightarrow> system option" where
  "take_lock t c s =
     (if lock_owner s = None then Some (set_pc t c (s\<lparr>lock_owner := Some t\<rparr>)) else None)"

text \<open>
  One statement of thread \<open>t\<close>. \<open>pthread_cond_wait\<close> is one call in three parts: it
  fails at once, or gives up the mutex and waits (\<open>G_condwait\<close>); it is woken (\<open>Wake\<close>,
  below); it fails, or takes the mutex again and returns 0 (\<open>G_wake\<close>).
  \<open>pthread_cond_signal\<close> changes nothing here: a waiting thread may be woken at any
  time, signalled or not.
\<close>

fun run_pc :: "nat \<Rightarrow> cint \<Rightarrow> pc \<Rightarrow> system \<Rightarrow> system option" where
  "run_pc t e Idle s = None"
| "run_pc t e G_lock s = via (MutexLock e) s (take_lock t G_test s)"
| "run_pc t e G_test s =
     Some (set_pc t (if indexList (pool s) = [] then G_condwait else G_front) s)"
| "run_pc t e G_condwait s =
     via (CondWait e) s (Some (set_pc t G_waiting (s\<lparr>lock_owner := None\<rparr>)))"
| "run_pc t e G_waiting s = None"
| "run_pc t e G_wake s = via (CondWait e) s (take_lock t G_test s)"
| "run_pc t e G_front s =
     (case front (indexList (pool s)) of
        Returned v \<Rightarrow> Some (set_pc t (G_pop v) s)
      | _ \<Rightarrow> Some (s\<lparr>status := Crashed\<rparr>))"
| "run_pc t e (G_pop v) s =
     (case pop_front (indexList (pool s)) of
        Returned l \<Rightarrow> Some (set_pc t (G_unlock v) (s\<lparr>pool := (pool s)\<lparr>indexList := l\<rparr>\<rparr>))
      | _ \<Rightarrow> Some (s\<lparr>status := Crashed\<rparr>))"
| "run_pc t e (G_unlock v) s =
     via (MutexUnlock e) s (Some (set_pc t (G_return v) (s\<lparr>lock_owner := None\<rparr>)))"
| "run_pc t e (G_return v) s =
     Some (set_pc t Idle (s\<lparr>handed_out := v # handed_out s\<rparr>))"
| "run_pc t e (R_lock i) s = via (MutexLock e) s (take_lock t (R_push i) s)"
| "run_pc t e (R_push i) s =
     Some (set_pc t (R_signal i)
            (s\<lparr>pool := (pool s)\<lparr>indexList := push_back i (indexList (pool s))\<rparr>\<rparr>))"
| "run_pc t e (R_signal i) s = via (CondSignal e) s (Some (set_pc t (R_unlock i) s))"
| "run_pc t e (R_unlock i) s =
     via (MutexUnlock e) s (Some (set_pc t Idle (s\<lparr>lock_owner := None\<rparr>)))"

text \<open>
  One step of the process: \<open>None\<close> when the process has ended, when there is no thread
  \<open>t\<close>, or when thread \<open>t\<close> cannot do \<open>a\<close> now.
\<close>

definition step :: "nat \<times> action \<Rightarrow> system \<Rightarrow> system option" where
  "step ev s =
     (let t = fst ev in
      if status s \<noteq> Running \<or> length (threads s) \<le> t then None
      else (case snd ev of
              Call_get \<Rightarrow> (if threads s ! t = Idle then Some (set_pc t G_lock s) else None)
            | Call_return i \<Rightarrow>
                (if threads s ! t = Idle
                 then Some (set_pc t (R_lock i) (s\<lparr>handed_out := remove1 i (handed_out s)\<rparr>))
                 else None)
            | Run e \<Rightarrow> run_pc t e (threads s ! t) s
            | Wake \<Rightarrow> (if threads s ! t = G_waiting then Some (set_pc t G_wake s) else None)))"

primrec exec :: "(nat \<times> action) list \<Rightarrow> system \<Rightarrow> system option" where
  "exec [] s = Some s"
| "exec (ev # evs) s = (case step ev s of None \<Rightarrow> None | Some s' \<Rightarrow> exec evs s')"

text \<open>
  The discipline of the callers: \<open>returnIndex(i)\<close> is called only with an identifier
  that \<open>getIndexBlocking\<close> has returned and that has not been given back since.
\<close>

definition permitted :: "nat \<times> action \<Rightarrow> system \<Rightarrow> bool" where
  "permitted ev s = (case snd ev of Call_return i \<Rightarrow> i \<in> set (handed_out s) | _ \<Rightarrow> True)"

primrec disciplined :: "(nat \<times> action) list \<Rightarrow> system \<Rightarrow> bool" where
  "disciplined [] s = True"
| "disciplined (ev # evs) s =
     (permitted ev s \<and> (case step ev s of None \<Rightarrow> False | Some s' \<Rightarrow> disciplined evs s'))"

text \<open>
  The identifiers a thread has taken out of the list and not yet returned to its
  caller, or has been given by its caller and not yet put back into the list.
\<close>

fun in_flight :: "pc \<Rightarrow> cint list" where
  "in_flight (G_unlock v) = [v]"
| "in_flight (G_return v) = [v]"
| "in_flight (R_lock i) = [i]"
| "in_flight (R_push i) = [i]"
| "in_flight _ = []"

text \<open>The identifiers that are checked out: held by a caller, or on their way.\<close>

definition checked_out :: "system \<Rightarrow> cint list" where
  "checked_out s = handed_out s @ concat (map in_flight (threads s))"

text \<open>The statements between \<open>MutexLock\<close> and \<open>MutexUnlock\<close>.\<close>

fun in_critical :: "pc \<Rightarrow> bool" where
  "in_critical G_test = True"
| "in_critical G_condwait = True"
| "in_critical G_front = True"
| "in_critical (G_pop v) = True"
| "in_critical (G_unlock v) = True"
| "in_critical (R_push i) = True"
| "in_critical (R_signal i) = True"
| "in_critical (R_unlock i) = True"
| "in_critical _ = False"

text \<open>
  The process once \<open>initializePool\<close> has returned the pool \<open>p\<close>, with \<open>k\<close> threads, none
  of them inside the pool's functions yet.
\<close>

definition boot :: "ThreadIDPool \<Rightarrow> nat \<Rightarrow> system" where
  "boot p k = \<lparr>pool = p, lock_owner = None, threads = replicate k Idle,
               handed_out = [], status = Running\<rparr>"

text \<open>Mutual exclusion: the owner of the mutex is the one thread between lock and unlock.\<close>

definition lock_inv :: "system \<Rightarrow> bool" where
  "lock_inv s \<longleftrightarrow>
     (\<forall>t. lock_owner s = Some t \<longleftrightarrow> t < length (threads s) \<and> in_critical (threads s ! t))"

text \<open>A thread about to execute line 117 or 118 finds an identifier at the front.\<close>

definition front_inv :: "system \<Rightarrow> bool" where
  "front_inv s \<longleftrightarrow>
     (\<forall>t<length (threads s).
        (threads s ! t = G_front \<longrightarrow> indexList (pool s) \<noteq> []) \<and>
        (\<forall>v. threads s ! t = G_pop v \<longrightarrow> (\<exists>r. indexList (pool s) = v # r)))"

text \<open>Every identifier in the process: those in the list and those checked out.\<close>

definition total :: "system \<Rightarrow> cint multiset" where
  "total s = mset (indexList (pool s)) + mset (checked_out s)"

section \<open>Properties of the sequential operations\<close>

declare fill_loop.simps [simp del]

lemma sint_succ: "i <s (n::cint) \<Longrightarrow> sint (i + 1) = sint i + 1"
proof -
  assume "i <s n"
  then have "sint i < sint n" by (simp add: word_sless_alt)
  moreover have "sint n < 2 ^ 31" using sint_lt [of n] by simp
  moreover have "- (2 ^ 31) \<le> sint i" using sint_ge [of i] by simp
  ultimately show ?thesis
    by (simp add: sint_word_ariths signed_take_bit_int_eq_self)
qed

lemma obind_Returned [simp]: "obind (Returned x) f = f x"
  by (simp add: obind_def)

lemma obind_Exited [simp]: "obind (Exited d) f = Exited d"
  by (simp add: obind_def)

lemma obind_Blocked [simp]: "obind Blocked f = Blocked"
  by (simp add: obind_def)

lemma obind_Undefined [simp]: "obind Undefined f = Undefined"
  by (simp add: obind_def)

lemma wrappers_ok [simp]:
  "MutexInit 0 = Returned ()" "MutexDestroy 0 = Returned ()"
  "MutexLock 0 = Returned ()" "MutexUnlock 0 = Returned ()"
  "CondInit 0 = Returned ()" "CondDestroy 0 = Returned ()"
  "CondSignal 0 = Returned ()" "CondWait 0 = Returned ()"
  by (simp_all add: MutexInit_def MutexDestroy_def MutexLock_def MutexUnlock_def
        CondInit_def CondDestroy_def CondSignal_def CondWait_def)

lemma of_nat_nat_sint: "0 \<le> sint (i :: cint) \<Longrightarrow> of_nat (nat (sint i)) = i"
  by (simp flip: word_of_int_nat)

lemma fill_loop_eq:
  "0 \<le> sint i \<Longrightarrow> fill_loop i n l = l @ map of_nat [nat (sint i)..<nat (sint n)]"
proof (induction i n l rule: fill_loop.induct)
  case (1 i n l)
  show ?case
  proof (cases "i <s n")
    case True
    then have lt: "sint i < sint n" by (simp add: word_sless_alt)
    have suc: "sint (i + 1) = sint i + 1" by (rule sint_succ [OF True])
    have "fill_loop i n l = fill_loop (i + 1) n (push_back i l)"
      using True by (subst fill_loop.simps) simp
    also have "\<dots> = push_back i l @ map of_nat [nat (sint (i + 1))..<nat (sint n)]"
      using "1.IH" [OF True] "1.prems" suc by simp
    also have "\<dots> = l @ map of_nat [nat (sint i)..<nat (sint n)]"
    proof -
      have "nat (sint i) < nat (sint n)" using lt "1.prems" by simp
      then have "[nat (sint i)..<nat (sint n)] = nat (sint i) # [Suc (nat (sint i))..<nat (sint n)]"
        by (rule upt_conv_Cons)
      moreover have "nat (sint (i + 1)) = Suc (nat (sint i))"
        using suc "1.prems" by simp
      ultimately show ?thesis
        using of_nat_nat_sint [OF "1.prems"] by (simp add: push_back_def)
    qed
    finally show ?thesis .
  next
    case False
    then have "sint n \<le> sint i" by (simp add: word_sless_alt)
    then have "[nat (sint i)..<nat (sint n)] = []" by simp
    moreover have "fill_loop i n l = l"
      using False by (subst fill_loop.simps) simp
    ultimately show ?thesis by simp
  qed
qed

lemma fill_loop_ids: "fill_loop 0 n [] = ids_upto n"
  using fill_loop_eq [of 0 n "[]"] by (simp add: ids_upto_def)

lemma initializePool_ok:
  "initializePool n 0 0 p = Returned (p\<lparr>indexList := ids_upto n\<rparr>)"
  by (simp add: initializePool_def fill_loop_ids)

lemma sint_of_nat_small: "k < nat (sint (n :: cint)) \<Longrightarrow> sint (of_nat k :: cint) = int k"
proof -
  assume "k < nat (sint n)"
  moreover have "sint n < 2 ^ 31" using sint_lt [of n] by simp
  ultimately have "int k < 2 ^ 31" by linarith
  then show ?thesis
    by (simp add: signed_of_nat signed_take_bit_int_eq_self)
qed

lemma sint_ids_upto: "map sint (ids_upto n) = map int [0..<nat (sint n)]"
  by (simp add: ids_upto_def sint_of_nat_small)

lemma distinct_ids_upto: "distinct (ids_upto n)"
proof -
  have "distinct (map sint (ids_upto n))"
    by (simp add: sint_ids_upto distinct_map)
  then show ?thesis by (simp add: distinct_map)
qed

lemma length_ids_upto: "length (ids_upto n) = nat (sint n)"
  by (simp add: ids_upto_def)

lemma ids_upto_nonpos: "n \<le>s 0 \<Longrightarrow> ids_upto n = []"
  by (simp add: ids_upto_def word_sle_eq)

lemma returnIndex_ok: "returnIndex 0 0 0 i p = Returned (p\<lparr>indexList := indexList p @ [i]\<rparr>)"
  by (simp add: returnIndex_def push_back_def)

lemma wait_loop_nonempty: "indexList p \<noteq> [] \<Longrightarrow> wait_loop ws p = Returned p"
  by (cases ws) simp_all

lemma getIndexBlocking_Cons:
  "indexList p = v # rest \<Longrightarrow> getIndexBlocking 0 ws 0 p = Returned (v, p\<lparr>indexList := rest\<rparr>)"
  by (simp add: getIndexBlocking_def wait_loop_nonempty front_def pop_front_def)

lemma wait_loop_spurious:
  "indexList p = [] \<Longrightarrow> \<forall>w\<in>set ws. w = (0, []) \<Longrightarrow> wait_loop ws p = Blocked"
  by (induction ws arbitrary: p) simp_all

lemma release_all_eq: "release_all rs p = Returned (p\<lparr>indexList := indexList p @ rs\<rparr>)"
  by (induction rs arbitrary: p) (simp_all add: release_def returnIndex_ok)

lemma acquire_n_take:
  "k \<le> length (indexList p) \<Longrightarrow>
   acquire_n k p = Returned (take k (indexList p), p\<lparr>indexList := drop k (indexList p)\<rparr>)"
proof (induction k arbitrary: p)
  case 0
  then show ?case by simp
next
  case (Suc k)
  then obtain v rest where l: "indexList p = v # rest" by (cases "indexList p") auto
  with Suc.prems have "k \<le> length (indexList (p\<lparr>indexList := rest\<rparr>))" by simp
  from Suc.IH [OF this] l show ?case
    by (simp add: acquire_def getIndexBlocking_Cons)
qed

lemma take_ids_upto: "k \<le> nat (sint n) \<Longrightarrow> take k (ids_upto n) = map of_nat [0..<k]"
  by (simp add: ids_upto_def take_map take_upt)


lemma obind_DIE: "obind (DIE line fmt e) f = DIE line fmt e"
  by (simp add: DIE_def)

lemma DIE_Exited: "\<exists>x. DIE line fmt e = Exited x"
  by (simp add: DIE_def)

lemma wrappers_not_Undefined [simp]:
  "MutexInit e \<noteq> Undefined" "MutexDestroy e \<noteq> Undefined"
  "MutexLock e \<noteq> Undefined" "MutexUnlock e \<noteq> Undefined"
  "CondInit e \<noteq> Undefined" "CondDestroy e \<noteq> Undefined"
  "CondSignal e \<noteq> Undefined" "CondWait e \<noteq> Undefined"
  by (simp_all add: MutexInit_def MutexDestroy_def MutexLock_def MutexUnlock_def
        CondInit_def CondDestroy_def CondSignal_def CondWait_def DIE_def)

text \<open>
  The loop of lines 114-115 is left only with a non-empty list: the one the call found,
  or one that a wakeup found. So \<open>front\<close> and \<open>pop_front\<close> are defined where they are
  called, and the value returned was at the front of such a list.
\<close>

lemma wait_loop_Returned:
  "wait_loop ws p = Returned p1 \<Longrightarrow>
   indexList p1 \<noteq> [] \<and> indexList p1 \<in> set (indexList p # map snd ws)"
proof (induction ws arbitrary: p)
  case Nil
  then show ?case by (simp split: if_splits)
next
  case (Cons w ws)
  show ?case
  proof (cases "indexList p = []")
    case True
    with Cons.prems obtain u where "CondWait (fst w) = Returned u"
      and "wait_loop ws (p\<lparr>indexList := snd w\<rparr>) = Returned p1"
      by (cases "CondWait (fst w)") simp_all
    from Cons.IH [OF this(2)] show ?thesis by auto
  next
    case False
    with Cons.prems show ?thesis by simp
  qed
qed

lemma wait_loop_not_Undefined: "wait_loop ws p \<noteq> Undefined"
proof (induction ws arbitrary: p)
  case Nil
  show ?case by simp
next
  case (Cons w ws)
  then show ?case
    by (cases "CondWait (fst w)") (simp_all add: CondWait_def DIE_def split: if_splits)
qed

lemma getIndexBlocking_Returned:
  assumes "getIndexBlocking e_lock ws e_unlock p = Returned (v, p')"
  shows "v # indexList p' \<in> set (indexList p # map snd ws)"
proof -
  from assms obtain p1 where w: "wait_loop ws p = Returned p1"
    and rest: "obind (front (indexList p1)) (\<lambda>value.
       obind (pop_front (indexList p1)) (\<lambda>l.
       obind (MutexUnlock e_unlock) (\<lambda>_. Returned (value, p1\<lparr>indexList := l\<rparr>))))
       = Returned (v, p')"
    by (cases "MutexLock e_lock"; cases "wait_loop ws p") (simp_all add: getIndexBlocking_def)
  from wait_loop_Returned [OF w] obtain x r where l: "indexList p1 = x # r"
    and mem: "indexList p1 \<in> set (indexList p # map snd ws)"
    by (cases "indexList p1") auto
  from rest l have "v = x" and "indexList p' = r"
    by (cases "MutexUnlock e_unlock"; simp add: front_def pop_front_def; fastforce)+
  with l mem show ?thesis by simp
qed

lemma getIndexBlocking_not_Undefined: "getIndexBlocking e_lock ws e_unlock p \<noteq> Undefined"
proof (cases "wait_loop ws p")
  case (Returned p1)
  from wait_loop_Returned [OF this] obtain x r where "indexList p1 = x # r"
    by (cases "indexList p1") auto
  with Returned show ?thesis
    by (cases "MutexLock e_lock"; cases "MutexUnlock e_unlock")
      (simp_all add: getIndexBlocking_def front_def pop_front_def)
next
  case (Exited d)
  then show ?thesis
    by (cases "MutexLock e_lock") (simp_all add: getIndexBlocking_def)
next
  case Blocked
  then show ?thesis
    by (cases "MutexLock e_lock") (simp_all add: getIndexBlocking_def)
next
  case Undefined
  then show ?thesis by (simp add: wait_loop_not_Undefined)
qed

section \<open>Properties of the interleaved executions\<close>

lemma via_wrapper:
  assumes "via r s k = Some s'" and "r \<noteq> Undefined"
  obtains d where "s' = s\<lparr>status := Terminated d\<rparr>" | "k = Some s'"
  using assms by (auto simp: via_def split: outcome.splits)

lemma take_lock_Some:
  "take_lock t c s = Some s' \<longleftrightarrow>
   lock_owner s = None \<and> s' = set_pc t c (s\<lparr>lock_owner := Some t\<rparr>)"
  by (auto simp: take_lock_def)

lemma step_Some_running:
  "step (t, a) s = Some s' \<Longrightarrow> status s = Running \<and> t < length (threads s)"
  by (simp add: step_def Let_def split: if_splits)

lemma step_cases [consumes 1, case_names call_get call_return wake die g_lock g_test_empty
    g_test_nonempty g_condwait g_wake g_front g_front_crash g_pop g_pop_crash g_unlock
    g_return r_lock r_push r_signal r_unlock]:
  assumes "step (t, a) s = Some s'"
  obtains
    (call_get) "threads s ! t = Idle" "s' = set_pc t G_lock s"
  | (call_return) i where "a = Call_return i" "threads s ! t = Idle"
      "s' = set_pc t (R_lock i) (s\<lparr>handed_out := remove1 i (handed_out s)\<rparr>)"
  | (wake) "threads s ! t = G_waiting" "s' = set_pc t G_wake s"
  | (die) d where "s' = s\<lparr>status := Terminated d\<rparr>"
  | (g_lock) "threads s ! t = G_lock" "lock_owner s = None"
      "s' = set_pc t G_test (s\<lparr>lock_owner := Some t\<rparr>)"
  | (g_test_empty) "threads s ! t = G_test" "indexList (pool s) = []"
      "s' = set_pc t G_condwait s"
  | (g_test_nonempty) "threads s ! t = G_test" "indexList (pool s) \<noteq> []"
      "s' = set_pc t G_front s"
  | (g_condwait) "threads s ! t = G_condwait"
      "s' = set_pc t G_waiting (s\<lparr>lock_owner := None\<rparr>)"
  | (g_wake) "threads s ! t = G_wake" "lock_owner s = None"
      "s' = set_pc t G_test (s\<lparr>lock_owner := Some t\<rparr>)"
  | (g_front) v r where "threads s ! t = G_front" "indexList (pool s) = v # r"
      "s' = set_pc t (G_pop v) s"
  | (g_front_crash) "threads s ! t = G_front" "indexList (pool s) = []"
      "s' = s\<lparr>status := Crashed\<rparr>"
  | (g_pop) v w r where "threads s ! t = G_pop v" "indexList (pool s) = w # r"
      "s' = set_pc t (G_unlock v) (s\<lparr>pool := (pool s)\<lparr>indexList := r\<rparr>\<rparr>)"
  | (g_pop_crash) v where "threads s ! t = G_pop v" "indexList (pool s) = []"
      "s' = s\<lparr>status := Crashed\<rparr>"
  | (g_unlock) v where "threads s ! t = G_unlock v"
      "s' = set_pc t (G_return v) (s\<lparr>lock_owner := None\<rparr>)"
  | (g_return) v where "threads s ! t = G_return v"
      "s' = set_pc t Idle (s\<lparr>handed_out := v # handed_out s\<rparr>)"
  | (r_lock) i where "threads s ! t = R_lock i" "lock_owner s = None"
      "s' = set_pc t (R_push i) (s\<lparr>lock_owner := Some t\<rparr>)"
  | (r_push) i where "threads s ! t = R_push i"
      "s' = set_pc t (R_signal i) (s\<lparr>pool := (pool s)\<lparr>indexList := indexList (pool s) @ [i]\<rparr>\<rparr>)"
  | (r_signal) i where "threads s ! t = R_signal i" "s' = set_pc t (R_unlock i) s"
  | (r_unlock) i where "threads s ! t = R_unlock i"
      "s' = set_pc t Idle (s\<lparr>lock_owner := None\<rparr>)"
proof (cases a)
  case Call_get
  with assms show ?thesis
    by (intro call_get) (simp_all add: step_def Let_def split: if_splits)
next
  case (Call_return i)
  with assms show ?thesis
    by (intro call_return [of i]) (simp_all add: step_def Let_def split: if_splits)
next
  case Wake
  with assms show ?thesis
    by (intro wake) (simp_all add: step_def Let_def split: if_splits)
next
  case (Run e)
  with assms have r: "run_pc t e (threads s ! t) s = Some s'"
    by (simp add: step_def Let_def split: if_splits)
  show ?thesis
  proof (cases "threads s ! t")
    case Idle
    with r show ?thesis by simp
  next
    case G_lock
    with r have "via (MutexLock e) s (take_lock t G_test s) = Some s'" by simp
    then show ?thesis
      by (rule via_wrapper) (simp_all add: take_lock_Some G_lock die g_lock)
  next
    case G_test
    with r show ?thesis
      by (cases "indexList (pool s) = []") (simp_all add: g_test_empty g_test_nonempty)
  next
    case G_condwait
    with r have "via (CondWait e) s (Some (set_pc t G_waiting (s\<lparr>lock_owner := None\<rparr>))) = Some s'"
      by simp
    then show ?thesis
      by (rule via_wrapper) (simp_all add: G_condwait die g_condwait)
  next
    case G_waiting
    with r show ?thesis by simp
  next
    case G_wake
    with r have "via (CondWait e) s (take_lock t G_test s) = Some s'" by simp
    then show ?thesis
      by (rule via_wrapper) (simp_all add: take_lock_Some G_wake die g_wake)
  next
    case G_front
    with r show ?thesis
      by (cases "indexList (pool s)") (simp_all add: front_def g_front g_front_crash)
  next
    case (G_pop v)
    with r show ?thesis
      by (cases "indexList (pool s)") (simp_all add: pop_front_def g_pop g_pop_crash)
  next
    case (G_unlock v)
    with r have "via (MutexUnlock e) s (Some (set_pc t (G_return v) (s\<lparr>lock_owner := None\<rparr>))) = Some s'"
      by simp
    then show ?thesis
      by (rule via_wrapper) (simp_all add: G_unlock die g_unlock)
  next
    case (G_return v)
    with r show ?thesis by (simp add: g_return)
  next
    case (R_lock i)
    with r have "via (MutexLock e) s (take_lock t (R_push i) s) = Some s'" by simp
    then show ?thesis
      by (rule via_wrapper) (simp_all add: take_lock_Some R_lock die r_lock)
  next
    case (R_push i)
    with r show ?thesis by (simp add: r_push push_back_def)
  next
    case (R_signal i)
    with r have "via (CondSignal e) s (Some (set_pc t (R_unlock i) s)) = Some s'" by simp
    then show ?thesis
      by (rule via_wrapper) (simp_all add: R_signal die r_signal)
  next
    case (R_unlock i)
    with r have "via (MutexUnlock e) s (Some (set_pc t Idle (s\<lparr>lock_owner := None\<rparr>))) = Some s'"
      by simp
    then show ?thesis
      by (rule via_wrapper) (simp_all add: R_unlock die r_unlock)
  qed
qed




lemma set_pc_simps [simp]:
  "threads (set_pc t c s) = (threads s)[t := c]"
  "pool (set_pc t c s) = pool s"
  "lock_owner (set_pc t c s) = lock_owner s"
  "handed_out (set_pc t c s) = handed_out s"
  "status (set_pc t c s) = status s"
  by (simp_all add: set_pc_def)

lemma lock_inv_same:
  assumes "lock_inv s" and "in_critical c = in_critical (threads s ! t)"
  shows "lock_inv (set_pc t c s)"
  unfolding lock_inv_def
proof
  fix u
  show "lock_owner (set_pc t c s) = Some u \<longleftrightarrow>
        u < length (threads (set_pc t c s)) \<and> in_critical (threads (set_pc t c s) ! u)"
  proof (cases "u = t")
    case True
    with assms show ?thesis by (cases "t < length (threads s)") (simp_all add: lock_inv_def)
  next
    case False
    with assms show ?thesis by (simp add: lock_inv_def)
  qed
qed


lemma lock_inv_unique:
  assumes "lock_inv s" and "t < length (threads s)" and "in_critical (threads s ! t)"
    and "u < length (threads s)" and "in_critical (threads s ! u)"
  shows "u = t"
proof -
  from assms(1,2,3) have "lock_owner s = Some t" by (simp add: lock_inv_def)
  moreover from assms(1,4,5) have "lock_owner s = Some u" by (simp add: lock_inv_def)
  ultimately show ?thesis by simp
qed

lemma lock_inv_free:
  "lock_inv s \<Longrightarrow> lock_owner s = None \<Longrightarrow> u < length (threads s) \<Longrightarrow>
   \<not> in_critical (threads s ! u)"
  by (simp add: lock_inv_def)

lemma lock_inv_acquire:
  assumes "lock_inv s" and "t < length (threads s)" and "lock_owner s = None" and "in_critical c"
  shows "lock_inv (set_pc t c (s\<lparr>lock_owner := Some t\<rparr>))"
  unfolding lock_inv_def
proof
  fix u
  show "lock_owner (set_pc t c (s\<lparr>lock_owner := Some t\<rparr>)) = Some u \<longleftrightarrow>
        u < length (threads (set_pc t c (s\<lparr>lock_owner := Some t\<rparr>))) \<and>
        in_critical (threads (set_pc t c (s\<lparr>lock_owner := Some t\<rparr>)) ! u)"
  proof (cases "u = t")
    case True
    with assms(2,4) show ?thesis by simp
  next
    case False
    with lock_inv_free [OF assms(1,3), of u] show ?thesis by auto
  qed
qed

lemma lock_inv_release:
  assumes "lock_inv s" and "t < length (threads s)" and "in_critical (threads s ! t)"
    and "\<not> in_critical c"
  shows "lock_inv (set_pc t c (s\<lparr>lock_owner := None\<rparr>))"
  unfolding lock_inv_def
proof
  fix u
  show "lock_owner (set_pc t c (s\<lparr>lock_owner := None\<rparr>)) = Some u \<longleftrightarrow>
        u < length (threads (set_pc t c (s\<lparr>lock_owner := None\<rparr>))) \<and>
        in_critical (threads (set_pc t c (s\<lparr>lock_owner := None\<rparr>)) ! u)"
  proof (cases "u = t")
    case True
    with assms(2,4) show ?thesis by simp
  next
    case False
    with lock_inv_unique [OF assms(1-3), of u] show ?thesis by auto
  qed
qed

lemma lock_inv_upd [simp]:
  "lock_inv (s\<lparr>status := x\<rparr>) = lock_inv s"
  "lock_inv (s\<lparr>pool := y\<rparr>) = lock_inv s"
  "lock_inv (s\<lparr>handed_out := z\<rparr>) = lock_inv s"
  by (simp_all add: lock_inv_def)

lemma set_pc_upd:
  "set_pc t c (s\<lparr>pool := y\<rparr>) = (set_pc t c s)\<lparr>pool := y\<rparr>"
  "set_pc t c (s\<lparr>handed_out := z\<rparr>) = (set_pc t c s)\<lparr>handed_out := z\<rparr>"
  by (simp_all add: set_pc_def)


lemma lock_inv_step:
  assumes "lock_inv s" and "step (t, a) s = Some s'"
  shows "lock_inv s'"
proof -
  from assms(2) have t: "t < length (threads s)" by (simp add: step_Some_running)
  from assms(2) show ?thesis
  proof (cases rule: step_cases)
    case call_get with assms(1) show ?thesis by (simp add: lock_inv_same)
  next
    case (call_return i) with assms(1) show ?thesis by (simp add: lock_inv_same set_pc_upd)
  next
    case wake with assms(1) show ?thesis by (simp add: lock_inv_same)
  next
    case (die d) with assms(1) show ?thesis by simp
  next
    case g_lock with assms(1) t show ?thesis by (simp add: lock_inv_acquire)
  next
    case g_test_empty with assms(1) show ?thesis by (simp add: lock_inv_same)
  next
    case g_test_nonempty with assms(1) show ?thesis by (simp add: lock_inv_same)
  next
    case g_condwait with assms(1) t show ?thesis by (simp add: lock_inv_release)
  next
    case g_wake with assms(1) t show ?thesis by (simp add: lock_inv_acquire)
  next
    case (g_front v r) with assms(1) show ?thesis by (simp add: lock_inv_same)
  next
    case g_front_crash with assms(1) show ?thesis by simp
  next
    case (g_pop v w r) with assms(1) show ?thesis by (simp add: lock_inv_same set_pc_upd)
  next
    case (g_pop_crash v) with assms(1) show ?thesis by simp
  next
    case (g_unlock v) with assms(1) t show ?thesis by (simp add: lock_inv_release)
  next
    case (g_return v) with assms(1) show ?thesis by (simp add: lock_inv_same set_pc_upd)
  next
    case (r_lock i) with assms(1) t show ?thesis by (simp add: lock_inv_acquire)
  next
    case (r_push i) with assms(1) show ?thesis by (simp add: lock_inv_same set_pc_upd)
  next
    case (r_signal i) with assms(1) show ?thesis by (simp add: lock_inv_same)
  next
    case (r_unlock i) with assms(1) t show ?thesis by (simp add: lock_inv_release)
  qed
qed


lemma front_inv_upd [simp]:
  "front_inv (s\<lparr>status := x\<rparr>) = front_inv s"
  "front_inv (s\<lparr>lock_owner := y\<rparr>) = front_inv s"
  "front_inv (s\<lparr>handed_out := z\<rparr>) = front_inv s"
  by (simp_all add: front_inv_def)

lemma set_pc_lock: "set_pc t c (s\<lparr>lock_owner := y\<rparr>) = (set_pc t c s)\<lparr>lock_owner := y\<rparr>"
  by (simp add: set_pc_def)

lemma front_inv_pc:
  assumes "front_inv s"
    and "c = G_front \<Longrightarrow> indexList (pool s) \<noteq> []"
    and "\<And>v. c = G_pop v \<Longrightarrow> \<exists>r. indexList (pool s) = v # r"
  shows "front_inv (set_pc t c s)"
  unfolding front_inv_def
proof (intro allI impI)
  fix u
  assume u: "u < length (threads (set_pc t c s))"
  show "(threads (set_pc t c s) ! u = G_front \<longrightarrow> indexList (pool (set_pc t c s)) \<noteq> []) \<and>
        (\<forall>v. threads (set_pc t c s) ! u = G_pop v \<longrightarrow>
           (\<exists>r. indexList (pool (set_pc t c s)) = v # r))"
  proof (cases "u = t")
    case True
    with u assms(2,3) show ?thesis by simp
  next
    case False
    with u assms(1) show ?thesis by (simp add: front_inv_def)
  qed
qed

lemma front_inv_other:
  "front_inv s \<Longrightarrow> c \<noteq> G_front \<Longrightarrow> \<forall>v. c \<noteq> G_pop v \<Longrightarrow> front_inv (set_pc t c s)"
  by (rule front_inv_pc) simp_all

lemma front_inv_front:
  "front_inv s \<Longrightarrow> indexList (pool s) \<noteq> [] \<Longrightarrow> front_inv (set_pc t G_front s)"
  by (rule front_inv_pc) simp_all

lemma front_inv_pop:
  "front_inv s \<Longrightarrow> indexList (pool s) = v # r \<Longrightarrow> front_inv (set_pc t (G_pop v) s)"
  by (rule front_inv_pc) simp_all

lemma front_inv_pool:
  assumes "lock_inv s" and "t < length (threads s)" and "in_critical (threads s ! t)"
    and "c \<noteq> G_front" and "\<forall>v. c \<noteq> G_pop v"
  shows "front_inv (set_pc t c (s\<lparr>pool := y\<rparr>))"
  unfolding front_inv_def
proof (intro allI impI)
  fix u
  assume u: "u < length (threads (set_pc t c (s\<lparr>pool := y\<rparr>)))"
  show "(threads (set_pc t c (s\<lparr>pool := y\<rparr>)) ! u = G_front \<longrightarrow>
           indexList (pool (set_pc t c (s\<lparr>pool := y\<rparr>))) \<noteq> []) \<and>
        (\<forall>v. threads (set_pc t c (s\<lparr>pool := y\<rparr>)) ! u = G_pop v \<longrightarrow>
           (\<exists>r. indexList (pool (set_pc t c (s\<lparr>pool := y\<rparr>))) = v # r))"
  proof (cases "u = t")
    case True
    with u assms(4,5) show ?thesis by simp
  next
    case False
    from u have "u < length (threads s)" by simp
    with False lock_inv_unique [OF assms(1-3), of u]
    have "\<not> in_critical (threads s ! u)" by blast
    then have "threads s ! u \<noteq> G_front" and "\<And>v. threads s ! u \<noteq> G_pop v" by auto
    with False show ?thesis by simp
  qed
qed

lemma front_inv_step:
  assumes "lock_inv s" and "front_inv s" and "step (t, a) s = Some s'"
  shows "front_inv s'"
proof -
  from assms(3) have t: "t < length (threads s)" by (simp add: step_Some_running)
  from assms(3) show ?thesis
  proof (cases rule: step_cases)
    case call_get with assms(2) show ?thesis by (simp add: front_inv_other)
  next
    case (call_return i) with assms(2) show ?thesis by (simp add: front_inv_other set_pc_upd)
  next
    case wake with assms(2) show ?thesis by (simp add: front_inv_other)
  next
    case (die d) with assms(2) show ?thesis by simp
  next
    case g_lock with assms(2) show ?thesis by (simp add: front_inv_other set_pc_lock)
  next
    case g_test_empty with assms(2) show ?thesis by (simp add: front_inv_other)
  next
    case g_test_nonempty with assms(2) show ?thesis by (simp add: front_inv_front)
  next
    case g_condwait with assms(2) show ?thesis by (simp add: front_inv_other set_pc_lock)
  next
    case g_wake with assms(2) show ?thesis by (simp add: front_inv_other set_pc_lock)
  next
    case (g_front v r) with assms(2) show ?thesis by (simp add: front_inv_pop)
  next
    case g_front_crash with assms(2) show ?thesis by simp
  next
    case (g_pop v w r) with assms(1) t show ?thesis by (simp add: front_inv_pool)
  next
    case (g_pop_crash v) with assms(2) show ?thesis by simp
  next
    case (g_unlock v) with assms(2) show ?thesis by (simp add: front_inv_other set_pc_lock)
  next
    case (g_return v) with assms(2) show ?thesis by (simp add: front_inv_other set_pc_upd)
  next
    case (r_lock i) with assms(2) show ?thesis by (simp add: front_inv_other set_pc_lock)
  next
    case (r_push i) with assms(1) t show ?thesis by (simp add: front_inv_pool)
  next
    case (r_signal i) with assms(2) show ?thesis by (simp add: front_inv_other)
  next
    case (r_unlock i) with assms(2) show ?thesis by (simp add: front_inv_other set_pc_lock)
  qed
qed

lemma status_step:
  assumes "front_inv s" and "step (t, a) s = Some s'"
  shows "status s' \<noteq> Crashed"
proof -
  from assms(2) have t: "t < length (threads s)" and run: "status s = Running"
    by (simp_all add: step_Some_running)
  from assms(2) show ?thesis
  proof (cases rule: step_cases)
    case g_front_crash
    with assms(1) t show ?thesis by (simp add: front_inv_def)
  next
    case (g_pop_crash v)
    with assms(1) t show ?thesis by (auto simp: front_inv_def)
  qed (simp_all add: run)
qed


lemma in_flight_update:
  "t < length cs \<Longrightarrow>
   mset (concat (map in_flight (cs[t := c]))) + mset (in_flight (cs ! t))
     = mset (concat (map in_flight cs)) + mset (in_flight c)"
proof (induction cs arbitrary: t)
  case Nil
  then show ?case by simp
next
  case (Cons x cs)
  show ?case
  proof (cases t)
    case 0
    then show ?thesis by simp
  next
    case (Suc u)
    with Cons.prems have "u < length cs" by simp
    from Cons.IH [OF this] Suc show ?thesis by (simp add: ac_simps)
  qed
qed

lemma checked_out_set_pc:
  "t < length (threads s) \<Longrightarrow>
   mset (checked_out (set_pc t c s)) + mset (in_flight (threads s ! t))
     = mset (checked_out s) + mset (in_flight c)"
  using in_flight_update [of t "threads s" c] by (simp add: checked_out_def)

lemma checked_out_upd [simp]:
  "checked_out (s\<lparr>status := x\<rparr>) = checked_out s"
  "checked_out (s\<lparr>lock_owner := y\<rparr>) = checked_out s"
  "checked_out (s\<lparr>pool := z\<rparr>) = checked_out s"
  by (simp_all add: checked_out_def)

lemma total_pc_same:
  "t < length (threads s) \<Longrightarrow> in_flight c = in_flight (threads s ! t) \<Longrightarrow>
   total (set_pc t c s) = total s"
  using checked_out_set_pc [of t s c] by (simp add: total_def)

lemma total_upd [simp]:
  "total (s\<lparr>status := x\<rparr>) = total s"
  "total (s\<lparr>lock_owner := y\<rparr>) = total s"
  by (simp_all add: total_def)

lemma total_step:
  assumes "front_inv s" and "permitted (t, a) s" and "step (t, a) s = Some s'"
  shows "total s' = total s"
proof -
  from assms(3) have t: "t < length (threads s)" by (simp add: step_Some_running)
  from assms(3) show ?thesis
  proof (cases rule: step_cases)
    case call_get with t show ?thesis by (simp add: total_pc_same)
  next
    case (call_return i)
    with assms(2) have "i \<in> set (handed_out s)" by (simp add: permitted_def)
    then have H: "add_mset i (mset (remove1 i (handed_out s))) = mset (handed_out s)"
      by simp
    have F: "mset (concat (map in_flight ((threads s)[t := R_lock i])))
               = add_mset i (mset (concat (map in_flight (threads s))))"
      using in_flight_update [OF t, of "R_lock i"] call_return(2) by simp
    have "total s' = mset (indexList (pool s)) +
            (add_mset i (mset (remove1 i (handed_out s))) + mset (concat (map in_flight (threads s))))"
      by (simp add: total_def checked_out_def call_return(3) F)
    also have "\<dots> = total s"
      by (simp only: H total_def checked_out_def mset_append)
    finally show ?thesis .
  next
    case wake with t show ?thesis by (simp add: total_pc_same)
  next
    case (die d) then show ?thesis by simp
  next
    case g_lock with t show ?thesis by (simp add: total_pc_same set_pc_lock)
  next
    case g_test_empty with t show ?thesis by (simp add: total_pc_same)
  next
    case g_test_nonempty with t show ?thesis by (simp add: total_pc_same)
  next
    case g_condwait with t show ?thesis by (simp add: total_pc_same set_pc_lock)
  next
    case g_wake with t show ?thesis by (simp add: total_pc_same set_pc_lock)
  next
    case (g_front v r) with t show ?thesis by (simp add: total_pc_same)
  next
    case g_front_crash then show ?thesis by simp
  next
    case (g_pop v w r)
    with assms(1) t have w: "w = v" by (auto simp: front_inv_def)
    have F: "mset (concat (map in_flight ((threads s)[t := G_unlock v])))
               = add_mset v (mset (concat (map in_flight (threads s))))"
      using in_flight_update [OF t, of "G_unlock v"] g_pop(1) by simp
    show ?thesis
      by (simp add: total_def checked_out_def g_pop(2,3) w F)
  next
    case (g_pop_crash v) then show ?thesis by simp
  next
    case (g_unlock v) with t show ?thesis by (simp add: total_pc_same set_pc_lock)
  next
    case (g_return v)
    have F: "mset (concat (map in_flight ((threads s)[t := Idle]))) + {#v#}
               = mset (concat (map in_flight (threads s)))"
      using in_flight_update [OF t, of Idle] g_return(1) by simp
    have "total s' = mset (indexList (pool s)) +
            (mset (handed_out s) + (mset (concat (map in_flight ((threads s)[t := Idle]))) + {#v#}))"
      by (simp add: total_def checked_out_def g_return(2))
    also have "\<dots> = total s"
      by (simp only: F total_def checked_out_def mset_append)
    finally show ?thesis .
  next
    case (r_lock i) with t show ?thesis by (simp add: total_pc_same set_pc_lock)
  next
    case (r_push i)
    have F: "mset (concat (map in_flight ((threads s)[t := R_signal i]))) + {#i#}
               = mset (concat (map in_flight (threads s)))"
      using in_flight_update [OF t, of "R_signal i"] r_push(1) by simp
    have "total s' = mset (indexList (pool s)) +
            (mset (handed_out s) + (mset (concat (map in_flight ((threads s)[t := R_signal i]))) + {#i#}))"
      by (simp add: total_def checked_out_def r_push(2))
    also have "\<dots> = total s"
      by (simp only: F total_def checked_out_def mset_append)
    finally show ?thesis .
  next
    case (r_signal i) with t show ?thesis by (simp add: total_pc_same)
  next
    case (r_unlock i) with t show ?thesis by (simp add: total_pc_same set_pc_lock)
  qed
qed

lemma boot_lock_inv: "lock_inv (boot p k)"
  by (auto simp: lock_inv_def boot_def)

lemma boot_front_inv: "front_inv (boot p k)"
  by (simp add: front_inv_def boot_def)

lemma boot_total: "total (boot p k) = mset (indexList p)"
  by (simp add: total_def checked_out_def boot_def map_replicate_const)

lemma exec_invs:
  "exec sched s = Some s' \<Longrightarrow> lock_inv s \<Longrightarrow> front_inv s \<Longrightarrow> status s \<noteq> Crashed \<Longrightarrow>
   lock_inv s' \<and> front_inv s' \<and> status s' \<noteq> Crashed"
proof (induction sched arbitrary: s)
  case Nil
  then show ?case by simp
next
  case (Cons ev sched)
  obtain t a where ev: "ev = (t, a)" by (cases ev)
  from Cons.prems(1) obtain s1 where s1: "step (t, a) s = Some s1" and rest: "exec sched s1 = Some s'"
    by (auto simp: ev split: option.splits)
  from Cons.prems(2) s1 have "lock_inv s1" by (rule lock_inv_step)
  moreover from Cons.prems(2,3) s1 have "front_inv s1" by (rule front_inv_step)
  moreover from Cons.prems(3) s1 have "status s1 \<noteq> Crashed" by (rule status_step)
  ultimately show ?case using Cons.IH [OF rest] by blast
qed

lemma exec_total:
  "disciplined sched s \<Longrightarrow> lock_inv s \<Longrightarrow> front_inv s \<Longrightarrow>
   \<exists>s'. exec sched s = Some s' \<and> total s' = total s"
proof (induction sched arbitrary: s)
  case Nil
  then show ?case by simp
next
  case (Cons ev sched)
  obtain t a where ev: "ev = (t, a)" by (cases ev)
  from Cons.prems(1) obtain s1 where ok: "permitted (t, a) s" and s1: "step (t, a) s = Some s1"
    and rest: "disciplined sched s1"
    by (auto simp: ev split: option.splits)
  from Cons.prems(2) s1 have "lock_inv s1" by (rule lock_inv_step)
  moreover from Cons.prems(2,3) s1 have "front_inv s1" by (rule front_inv_step)
  ultimately obtain s' where "exec sched s1 = Some s'" and "total s' = total s1"
    using Cons.IH [OF rest] by blast
  moreover from Cons.prems(3) ok s1 have "total s1 = total s" by (rule total_step)
  ultimately show ?case by (simp add: ev s1)
qed

lemma disciplined_take: "disciplined sched s \<Longrightarrow> disciplined (take j sched) s"
proof (induction sched arbitrary: s j)
  case Nil
  then show ?case by simp
next
  case (Cons ev sched)
  show ?case
  proof (cases j)
    case 0
    then show ?thesis by simp
  next
    case (Suc i)
    with Cons show ?thesis by (auto split: option.splits)
  qed
qed

lemma initializePool_Returned:
  "initializePool n e_mutex e_cond p0 = Returned p \<Longrightarrow> p = p0\<lparr>indexList := ids_upto n\<rparr>"
  by (auto simp: initializePool_def MutexInit_def CondInit_def DIE_def fill_loop_ids
      split: if_splits)


lemma loop_step:
  assumes "front_inv s" and "step (t, Run e) s = Some s'" and "status s' = Running"
  shows "(threads s ! t = G_test \<longrightarrow>
            threads s' ! t = (if indexList (pool s) = [] then G_condwait else G_front)) \<and>
         (threads s ! t = G_wake \<longrightarrow> threads s' ! t = G_test \<and> lock_owner s' = Some t) \<and>
         (\<forall>v. threads s ! t = G_pop v \<longrightarrow>
            indexList (pool s) = v # indexList (pool s') \<and> threads s' ! t = G_unlock v)"
proof -
  from assms(2) have t: "t < length (threads s)" by (simp add: step_Some_running)
  from assms(2) show ?thesis
  proof (cases rule: step_cases)
    case (die d)
    with assms(3) show ?thesis by simp
  next
    case (g_pop v w r)
    with assms(1) t have "w = v" by (auto simp: front_inv_def)
    with g_pop t show ?thesis by simp
  qed (use assms(3) in \<open>simp_all add: t\<close>)
qed

lemma step_call_get:
  "status s = Running \<Longrightarrow> t < length (threads s) \<Longrightarrow> threads s ! t = Idle \<Longrightarrow>
   step (t, Call_get) s = Some (set_pc t G_lock s)"
  by (simp add: step_def)

lemma step_call_return:
  "status s = Running \<Longrightarrow> t < length (threads s) \<Longrightarrow> threads s ! t = Idle \<Longrightarrow>
   step (t, Call_return i) s
     = Some (set_pc t (R_lock i) (s\<lparr>handed_out := remove1 i (handed_out s)\<rparr>))"
  by (simp add: step_def)

lemma step_run:
  "status s = Running \<Longrightarrow> t < length (threads s) \<Longrightarrow>
   step (t, Run e) s = run_pc t e (threads s ! t) s"
  by (simp add: step_def)

lemma via_ok: "via (Returned ()) s k = k"
  by (simp add: via_def)

text \<open>
  A thread that runs \<open>getIndexBlocking\<close> from entry to return without interference, on a
  non-empty list, does to the pool what the sequential \<open>getIndexBlocking\<close> does.
\<close>

lemma solo_getIndexBlocking:
  assumes "status s = Running" and "t < length (threads s)" and "threads s ! t = Idle"
    and "lock_owner s = None" and "indexList (pool s) = v # r"
  shows "exec [(t, Call_get), (t, Run 0), (t, Run 0), (t, Run 0), (t, Run 0), (t, Run 0),
               (t, Run 0)] s
           = Some (s\<lparr>pool := (pool s)\<lparr>indexList := r\<rparr>, handed_out := v # handed_out s\<rparr>) \<and>
         getIndexBlocking 0 ws 0 (pool s) = Returned (v, (pool s)\<lparr>indexList := r\<rparr>)"
proof -
  have same: "(threads s)[t := Idle] = threads s"
    using assms(3) by (metis list_update_id)
  have "exec [(t, Call_get), (t, Run 0), (t, Run 0), (t, Run 0), (t, Run 0), (t, Run 0),
               (t, Run 0)] s
           = Some (s\<lparr>pool := (pool s)\<lparr>indexList := r\<rparr>, handed_out := v # handed_out s\<rparr>)"
    using assms
    by (simp add: step_call_get step_run via_ok take_lock_def front_def pop_front_def
        set_pc_def same)
  with assms(5) show ?thesis by (simp add: getIndexBlocking_Cons)
qed

text \<open>The same for \<open>returnIndex\<close>.\<close>

lemma solo_returnIndex:
  assumes "status s = Running" and "t < length (threads s)" and "threads s ! t = Idle"
    and "lock_owner s = None"
  shows "exec [(t, Call_return i), (t, Run 0), (t, Run 0), (t, Run 0), (t, Run 0)] s
           = Some (s\<lparr>pool := (pool s)\<lparr>indexList := indexList (pool s) @ [i]\<rparr>,
                     handed_out := remove1 i (handed_out s)\<rparr>) \<and>
         returnIndex 0 0 0 i (pool s) = Returned ((pool s)\<lparr>indexList := indexList (pool s) @ [i]\<rparr>)"
proof -
  have same: "(threads s)[t := Idle] = threads s"
    using assms(3) by (metis list_update_id)
  have "exec [(t, Call_return i), (t, Run 0), (t, Run 0), (t, Run 0), (t, Run 0)] s
           = Some (s\<lparr>pool := (pool s)\<lparr>indexList := indexList (pool s) @ [i]\<rparr>,
                     handed_out := remove1 i (handed_out s)\<rparr>)"
    using assms
    by (simp add: step_call_return step_run via_ok take_lock_def push_back_def
        set_pc_def same)
  then show ?thesis by (simp add: returnIndex_ok)
qed

section \<open>The claims\<close>

text \<open>
  Claim C1 (conservation). The pool is initialized with capacity \<open>n\<close> and then used by
  \<open>k\<close> threads in any interleaving in which every call \<open>returnIndex(i)\<close> passes an
  identifier that \<open>getIndexBlocking\<close> has returned and that has not been given back since.
  Then after every step of the execution (\<open>take j sched\<close> is the execution up to its
  \<open>j\<close>-th step) the identifiers in \<open>indexList\<close> together with the identifiers checked out
  are exactly \<open>0, ..., n - 1\<close>, each of them once.
\<close>

theorem identifiers_conserved:
  assumes "initializePool n e_mutex e_cond p0 = Returned p"
    and "disciplined sched (boot p k)"
  shows "\<exists>s. exec (take j sched) (boot p k) = Some s \<and>
             mset (indexList (pool s) @ checked_out s) = mset (ids_upto n) \<and>
             distinct (indexList (pool s) @ checked_out s) \<and>
             map sint (ids_upto n) = map int [0..<nat (sint n)]"
proof -
  from assms(1) have p: "indexList p = ids_upto n"
    by (auto dest: initializePool_Returned)
  from assms(2) have "disciplined (take j sched) (boot p k)" by (rule disciplined_take)
  then obtain s where s: "exec (take j sched) (boot p k) = Some s"
    and "total s = total (boot p k)"
    using exec_total boot_lock_inv boot_front_inv by blast
  then have "total s = mset (ids_upto n)" by (simp add: boot_total p)
  then have eq: "mset (indexList (pool s) @ checked_out s) = mset (ids_upto n)"
    by (simp add: total_def)
  moreover have "distinct (indexList (pool s) @ checked_out s)"
    using mset_eq_imp_distinct_iff [OF eq] distinct_ids_upto by simp
  ultimately show ?thesis using s sint_ids_upto by blast
qed


text \<open>
  Capacity 2, two threads: thread 0 acquires the identifier 0, thread 1 enters
  \<open>getIndexBlocking\<close>, thread 0 gives 0 back. After the first nine steps the identifier 0
  is on its way back into the list and 1 is still available.
\<close>

theorem identifiers_conserved_witness:
  "initializePool 2 0 0 \<lparr>indexList = [9]\<rparr> = Returned \<lparr>indexList = [0, 1]\<rparr> \<and>
   disciplined [(0, Call_get), (0, Run 0), (0, Run 0), (0, Run 0), (0, Run 0), (0, Run 0),
                (0, Run 0), (1, Call_get), (0, Call_return 0), (0, Run 0), (0, Run 0)]
     (boot \<lparr>indexList = [0, 1]\<rparr> 2) \<and>
   (\<exists>s. exec (take 9 [(0, Call_get), (0, Run 0), (0, Run 0), (0, Run 0), (0, Run 0),
                      (0, Run 0), (0, Run 0), (1, Call_get), (0, Call_return 0), (0, Run 0),
                      (0, Run 0)])
           (boot \<lparr>indexList = [0, 1]\<rparr> 2) = Some s \<and>
        mset (indexList (pool s) @ checked_out s) = mset (ids_upto 2) \<and>
        distinct (indexList (pool s) @ checked_out s))"
proof -
  have init: "initializePool 2 0 0 \<lparr>indexList = [9]\<rparr> = Returned \<lparr>indexList = [0, 1]\<rparr>"
    by code_simp
  have disc: "disciplined [(0, Call_get), (0, Run 0), (0, Run 0), (0, Run 0), (0, Run 0),
                (0, Run 0), (0, Run 0), (1, Call_get), (0, Call_return 0), (0, Run 0),
                (0, Run 0)] (boot \<lparr>indexList = [0, 1]\<rparr> 2)"
    by code_simp
  from identifiers_conserved [OF init disc, of 9] init disc
  show ?thesis by blast
qed

text \<open>
  Claim C2. On a non-empty list \<open>getIndexBlocking\<close> (its pthread calls succeeding) returns
  the element at the front and leaves the rest of the list, which is one element shorter;
  it does so without waiting, whatever wakeups \<open>ws\<close> might come. Right after
  \<open>initializePool n\<close>, \<open>k \<le> n\<close> successive calls return \<open>0, 1, ..., k - 1\<close> in this order.
\<close>

theorem getIndexBlocking_front:
  "(indexList p \<noteq> [] \<longrightarrow>
      getIndexBlocking 0 ws 0 p = Returned (hd (indexList p), p\<lparr>indexList := tl (indexList p)\<rparr>) \<and>
      length (tl (indexList p)) + 1 = length (indexList p)) \<and>
   (k \<le> nat (sint n) \<longrightarrow>
      obind (initializePool n 0 0 p0) (acquire_n k)
        = Returned (map of_nat [0..<k], p0\<lparr>indexList := drop k (ids_upto n)\<rparr>))"
proof (intro conjI impI)
  assume ne: "indexList p \<noteq> []"
  then obtain v rest where l: "indexList p = v # rest" by (cases "indexList p") auto
  then show "getIndexBlocking 0 ws 0 p = Returned (hd (indexList p), p\<lparr>indexList := tl (indexList p)\<rparr>)"
    by (simp add: getIndexBlocking_Cons)
  from ne show "length (tl (indexList p)) + 1 = length (indexList p)" by simp
next
  assume k: "k \<le> nat (sint n)"
  then have "acquire_n k (p0\<lparr>indexList := ids_upto n\<rparr>)
      = Returned (take k (ids_upto n), p0\<lparr>indexList := drop k (ids_upto n)\<rparr>)"
    using acquire_n_take [of k "p0\<lparr>indexList := ids_upto n\<rparr>"] by (simp add: length_ids_upto)
  with k show "obind (initializePool n 0 0 p0) (acquire_n k)
        = Returned (map of_nat [0..<k], p0\<lparr>indexList := drop k (ids_upto n)\<rparr>)"
    by (simp add: initializePool_ok take_ids_upto)
qed

text \<open>A list holding 5 and 3; and Scenario C: capacity 3, three calls return 0, 1, 2.\<close>

theorem getIndexBlocking_front_witness:
  "indexList \<lparr>indexList = [5, 3]\<rparr> \<noteq> [] \<and>
   getIndexBlocking 0 [] 0 \<lparr>indexList = [5, 3]\<rparr> = Returned (5, \<lparr>indexList = [3]\<rparr>) \<and>
   (3::nat) \<le> nat (sint (3::cint)) \<and>
   obind (initializePool 3 0 0 \<lparr>indexList = []\<rparr>) (acquire_n 3)
     = Returned ([0, 1, 2], \<lparr>indexList = []\<rparr>)"
proof -
  have ids: "ids_upto 3 = [0, 1, 2]" by code_simp
  have up: "[0..<3] = [0, 1, 2]" by code_simp
  from getIndexBlocking_front [of "\<lparr>indexList = [5, 3]\<rparr>" "[]" 3 3 "\<lparr>indexList = []\<rparr>"] ids up
  show ?thesis by simp
qed

text \<open>
  Claim C3 as stated does not hold when identifiers are still available at the time of
  the releases: after \<open>initializePool 3\<close> and two acquires (returning 0 and 1) the list
  holds 2; the releases of 0 and 1 followed by two acquires return 2 and 0, not 0 and 1.
\<close>

theorem fifo_claim_counterexample:
  "obind (initializePool 3 0 0 \<lparr>indexList = []\<rparr>) (acquire_n 2)
     = Returned ([0, 1], \<lparr>indexList = [2]\<rparr>) \<and>
   obind (release_all [0, 1] \<lparr>indexList = [2]\<rparr>) (acquire_n 2)
     = Returned ([2, 0], \<lparr>indexList = [1]\<rparr>) \<and>
   [2, 0] \<noteq> [0, 1 :: cint]"
  by code_simp

text \<open>
  Claim C3, amended (FIFO of availability). If the list is empty when the releases start,
  releases of \<open>r1, ..., rk\<close> followed by \<open>k\<close> acquires return \<open>r1, ..., rk\<close> in this order
  and leave the list empty; in general the \<open>k\<close> acquires return the first \<open>k\<close> elements of
  the old list followed by \<open>r1, ..., rk\<close>. Scenario B: after \<open>initializePool 1\<close>, acquire
  returns 0, and after the release of 0 acquire returns 0 again.
\<close>

theorem fifo_from_empty:
  "(indexList p = [] \<longrightarrow> obind (release_all rs p) (acquire_n (length rs)) = Returned (rs, p)) \<and>
   obind (release_all rs p) (acquire_n (length rs))
     = Returned (take (length rs) (indexList p @ rs),
                 p\<lparr>indexList := drop (length rs) (indexList p @ rs)\<rparr>) \<and>
   obind (initializePool 1 0 0 p0) (\<lambda>p1.
     obind (acquire p1) (\<lambda>(a, p2).
     obind (release a p2) (\<lambda>p3.
     obind (acquire p3) (\<lambda>(b, p4).
     Returned (a, b, indexList p4))))) = Returned (0, 0, [])"
proof (intro conjI impI)
  have gen: "obind (release_all rs p) (acquire_n (length rs))
     = Returned (take (length rs) (indexList p @ rs),
                 p\<lparr>indexList := drop (length rs) (indexList p @ rs)\<rparr>)"
    using acquire_n_take [of "length rs" "p\<lparr>indexList := indexList p @ rs\<rparr>"]
    by (simp add: release_all_eq)
  then show "obind (release_all rs p) (acquire_n (length rs))
     = Returned (take (length rs) (indexList p @ rs),
                 p\<lparr>indexList := drop (length rs) (indexList p @ rs)\<rparr>)" .
  assume "indexList p = []"
  with gen show "obind (release_all rs p) (acquire_n (length rs)) = Returned (rs, p)"
    by simp
next
  have "ids_upto 1 = [0]" by code_simp
  then show "obind (initializePool 1 0 0 p0) (\<lambda>p1.
     obind (acquire p1) (\<lambda>(a, p2).
     obind (release a p2) (\<lambda>p3.
     obind (acquire p3) (\<lambda>(b, p4).
     Returned (a, b, indexList p4))))) = Returned (0, 0, [])"
    by (simp add: initializePool_ok acquire_def release_def getIndexBlocking_Cons returnIndex_ok)
qed

text \<open>Releases of 1, 0, 2 into an empty list, then three acquires.\<close>

theorem fifo_from_empty_witness:
  "indexList \<lparr>indexList = []\<rparr> = [] \<and>
   obind (release_all [1, 0, 2] \<lparr>indexList = []\<rparr>) (acquire_n 3)
     = Returned ([1, 0, 2], \<lparr>indexList = []\<rparr>)"
proof -
  have len: "length [1, 0, 2 :: cint] = 3" by simp
  have "obind (release_all [1, 0, 2] \<lparr>indexList = []\<rparr>) (acquire_n (length [1, 0, 2 :: cint]))
          = Returned ([1, 0, 2], \<lparr>indexList = []\<rparr>)"
    by (rule fifo_from_empty [of "\<lparr>indexList = []\<rparr>" "[1, 0, 2]" "\<lparr>indexList = []\<rparr>",
          THEN conjunct1, THEN mp]) simp
  then show ?thesis by (simp only: len ThreadIDPool.simps simp_thms)
qed

text \<open>
  Claim C4. For every positive capacity \<open>n\<close>, \<open>initializePool n\<close> (every pthread call
  succeeding) returns with \<open>indexList\<close> holding exactly the identifiers \<open>0, ..., n - 1\<close>:
  read as C++ \<open>int\<close> values the list is \<open>0, 1, ..., n - 1\<close> in ascending order, it has
  \<open>n\<close> elements and no element occurs twice.
\<close>

theorem initializePool_ascending:
  "0 <s n \<Longrightarrow>
   initializePool n 0 0 p = Returned (p\<lparr>indexList := ids_upto n\<rparr>) \<and>
   map sint (ids_upto n) = map int [0..<nat (sint n)] \<and>
   length (ids_upto n) = nat (sint n) \<and> distinct (ids_upto n)"
  by (simp add: initializePool_ok sint_ids_upto length_ids_upto distinct_ids_upto)

text \<open>The capacity 3, on a pool whose list held stale entries.\<close>

theorem initializePool_ascending_witness:
  "(0::cint) <s 3 \<and>
   initializePool 3 0 0 \<lparr>indexList = [7, 7]\<rparr> = Returned \<lparr>indexList = [0, 1, 2]\<rparr> \<and>
   map sint (ids_upto 3) = [0, 1, 2]"
proof -
  have pos: "(0::cint) <s 3" by (simp add: word_sless_alt)
  have ids: "ids_upto 3 = [0, 1, 2]" by code_simp
  from initializePool_ascending [OF pos, of "\<lparr>indexList = [7, 7]\<rparr>"] pos ids
  show ?thesis by simp
qed

text \<open>
  Claim C5. In every interleaved execution from the initial state, with wakeups at any
  time, undefined behaviour is never reached, and a thread that is about to execute
  \<open>indexList.front()\<close> or \<open>indexList.pop_front()\<close> (lines 117 and 118) holds the mutex and
  finds the list non-empty, with the value it read still at the front: no call of
  \<open>getIndexBlocking\<close> takes an identifier out of an empty list. The loop of lines 114-115
  re-establishes this: a thread that finds the list empty goes to \<open>CondWait\<close> and not to
  line 117, and every return from \<open>CondWait\<close> leads back to the test of line 114. The
  identifier a call goes on to return is the one line 118 removes from the front.
\<close>

theorem removal_only_when_available:
  assumes "exec sched (boot p k) = Some s"
  shows "status s \<noteq> Crashed \<and>
         (\<forall>t<length (threads s).
            (threads s ! t = G_front \<longrightarrow> indexList (pool s) \<noteq> [] \<and> lock_owner s = Some t) \<and>
            (\<forall>v. threads s ! t = G_pop v \<longrightarrow>
               (\<exists>r. indexList (pool s) = v # r) \<and> lock_owner s = Some t)) \<and>
         (\<forall>t e s'. step (t, Run e) s = Some s' \<and> status s' = Running \<longrightarrow>
            (threads s ! t = G_test \<longrightarrow>
               threads s' ! t = (if indexList (pool s) = [] then G_condwait else G_front)) \<and>
            (threads s ! t = G_wake \<longrightarrow> threads s' ! t = G_test \<and> lock_owner s' = Some t) \<and>
            (\<forall>v. threads s ! t = G_pop v \<longrightarrow>
               indexList (pool s) = v # indexList (pool s') \<and> threads s' ! t = G_unlock v))"
proof -
  have "status (boot p k) \<noteq> Crashed" by (simp add: boot_def)
  with exec_invs [OF assms boot_lock_inv boot_front_inv]
  have l: "lock_inv s" and f: "front_inv s" and c: "status s \<noteq> Crashed" by simp_all
  have removal: "\<forall>t<length (threads s).
            (threads s ! t = G_front \<longrightarrow> indexList (pool s) \<noteq> [] \<and> lock_owner s = Some t) \<and>
            (\<forall>v. threads s ! t = G_pop v \<longrightarrow>
               (\<exists>r. indexList (pool s) = v # r) \<and> lock_owner s = Some t)"
  proof (intro conjI allI impI)
    fix t assume "t < length (threads s)" and "threads s ! t = G_front"
    with f show "indexList (pool s) \<noteq> []" by (simp add: front_inv_def)
  next
    fix t assume "t < length (threads s)" and "threads s ! t = G_front"
    with l show "lock_owner s = Some t" by (simp add: lock_inv_def)
  next
    fix t v assume "t < length (threads s)" and "threads s ! t = G_pop v"
    with f show "\<exists>r. indexList (pool s) = v # r" by (simp add: front_inv_def)
  next
    fix t v assume "t < length (threads s)" and "threads s ! t = G_pop v"
    with l show "lock_owner s = Some t" by (simp add: lock_inv_def)
  qed
  have loop: "\<forall>t e s'. step (t, Run e) s = Some s' \<and> status s' = Running \<longrightarrow>
            (threads s ! t = G_test \<longrightarrow>
               threads s' ! t = (if indexList (pool s) = [] then G_condwait else G_front)) \<and>
            (threads s ! t = G_wake \<longrightarrow> threads s' ! t = G_test \<and> lock_owner s' = Some t) \<and>
            (\<forall>v. threads s ! t = G_pop v \<longrightarrow>
               indexList (pool s) = v # indexList (pool s') \<and> threads s' ! t = G_unlock v)"
    using loop_step [OF f] by blast
  from c removal loop show ?thesis by blast
qed

text \<open>
  Capacity 1, two threads. Thread 1 acquires the identifier 0. Thread 0 finds the list
  empty and waits; it is woken spuriously, finds the list empty again and goes back to
  waiting. Thread 1 gives 0 back; thread 0 is woken and only now reaches line 118, with
  0 at the front of the list.
\<close>

theorem removal_only_when_available_witness:
  "exec [(1, Call_get), (1, Run 0), (1, Run 0), (1, Run 0), (1, Run 0), (1, Run 0), (1, Run 0),
         (0, Call_get), (0, Run 0), (0, Run 0), (0, Run 0),
         (0, Wake), (0, Run 0), (0, Run 0), (0, Run 0),
         (1, Call_return 0), (1, Run 0), (1, Run 0), (1, Run 0), (1, Run 0),
         (0, Wake), (0, Run 0), (0, Run 0), (0, Run 0)] (boot \<lparr>indexList = [0]\<rparr> 2)
     = Some \<lparr>pool = \<lparr>indexList = [0]\<rparr>, lock_owner = Some 0, threads = [G_pop 0, Idle],
             handed_out = [], status = Running\<rparr> \<and>
   exec [(1, Call_get), (1, Run 0), (1, Run 0), (1, Run 0), (1, Run 0), (1, Run 0), (1, Run 0),
         (0, Call_get), (0, Run 0), (0, Run 0), (0, Run 0),
         (0, Wake), (0, Run 0)] (boot \<lparr>indexList = [0]\<rparr> 2)
     = Some \<lparr>pool = \<lparr>indexList = []\<rparr>, lock_owner = Some 0, threads = [G_test, Idle],
             handed_out = [0], status = Running\<rparr> \<and>
   step (0, Run 0) \<lparr>pool = \<lparr>indexList = []\<rparr>, lock_owner = Some 0, threads = [G_test, Idle],
                     handed_out = [0], status = Running\<rparr>
     = Some \<lparr>pool = \<lparr>indexList = []\<rparr>, lock_owner = Some 0, threads = [G_condwait, Idle],
             handed_out = [0], status = Running\<rparr>"
proof -
  let ?s = "\<lparr>pool = \<lparr>indexList = [0]\<rparr>, lock_owner = Some 0, threads = [G_pop 0, Idle],
             handed_out = [], status = Running\<rparr>"
  let ?u = "\<lparr>pool = \<lparr>indexList = []\<rparr>, lock_owner = Some 0, threads = [G_test, Idle],
             handed_out = [0], status = Running\<rparr>"
  let ?u' = "\<lparr>pool = \<lparr>indexList = []\<rparr>, lock_owner = Some 0, threads = [G_condwait, Idle],
             handed_out = [0], status = Running\<rparr>"
  have run: "exec [(1, Call_get), (1, Run 0), (1, Run 0), (1, Run 0), (1, Run 0), (1, Run 0),
         (1, Run 0), (0, Call_get), (0, Run 0), (0, Run 0), (0, Run 0),
         (0, Wake), (0, Run 0), (0, Run 0), (0, Run 0),
         (1, Call_return 0), (1, Run 0), (1, Run 0), (1, Run 0), (1, Run 0),
         (0, Wake), (0, Run 0), (0, Run 0), (0, Run 0)] (boot \<lparr>indexList = [0]\<rparr> 2) = Some ?s"
    by code_simp
  have run2: "exec [(1, Call_get), (1, Run 0), (1, Run 0), (1, Run 0), (1, Run 0), (1, Run 0),
         (1, Run 0), (0, Call_get), (0, Run 0), (0, Run 0), (0, Run 0),
         (0, Wake), (0, Run 0)] (boot \<lparr>indexList = [0]\<rparr> 2) = Some ?u"
    by code_simp
  have st: "step (0, Run 0) ?u = Some ?u'" by code_simp
  from removal_only_when_available [OF run]
  have "\<exists>r. indexList (pool ?s) = 0 # r" by simp
  moreover from removal_only_when_available [OF run2] st
  have "threads ?u' ! 0 = G_condwait" by simp
  ultimately show ?thesis using run run2 st by simp
qed

text \<open>
  Claim C6 as stated does not hold: \<open>returnIndex\<close> has no guard. Right after
  \<open>initializePool 2\<close>, when the list holds 0 and 1 and nothing is checked out,
  \<open>returnIndex(5)\<close> (outside the range) and \<open>returnIndex(0)\<close> (never acquired) both return
  normally, and the list then holds 5, or holds 0 twice.
\<close>

theorem release_unguarded_counterexample:
  "initializePool 2 0 0 \<lparr>indexList = []\<rparr> = Returned \<lparr>indexList = [0, 1]\<rparr> \<and>
   returnIndex 0 0 0 5 \<lparr>indexList = [0, 1]\<rparr> = Returned \<lparr>indexList = [0, 1, 5]\<rparr> \<and>
   returnIndex 0 0 0 0 \<lparr>indexList = [0, 1]\<rparr> = Returned \<lparr>indexList = [0, 1, 0]\<rparr>"
  by code_simp

text \<open>
  Claim C6, amended. \<open>returnIndex(i)\<close> does not look at \<open>i\<close> or at the list: it ends
  in \<open>DIE\<close> exactly when one of its three pthread calls reports an error, and otherwise it
  returns with \<open>i\<close> appended, also when \<open>i\<close> is out of range or was never checked out.
\<close>

theorem returnIndex_unguarded:
  "((\<exists>d. returnIndex e_lock e_signal e_unlock i p = Exited d)
      \<longleftrightarrow> e_lock \<noteq> 0 \<or> e_signal \<noteq> 0 \<or> e_unlock \<noteq> 0) \<and>
   (e_lock = 0 \<and> e_signal = 0 \<and> e_unlock = 0 \<longrightarrow>
      returnIndex e_lock e_signal e_unlock i p = Returned (p\<lparr>indexList := indexList p @ [i]\<rparr>))"
  by (simp add: returnIndex_def MutexLock_def CondSignal_def MutexUnlock_def DIE_def push_back_def)

text \<open>The identifier 5 on a pool of capacity 2; and a failing \<open>pthread_cond_signal\<close>.\<close>

theorem returnIndex_unguarded_witness:
  "\<not> (\<exists>d. returnIndex 0 0 0 5 \<lparr>indexList = [0, 1]\<rparr> = Exited d) \<and>
   returnIndex 0 0 0 5 \<lparr>indexList = [0, 1]\<rparr> = Returned \<lparr>indexList = [0, 1, 5]\<rparr> \<and>
   (\<exists>d. returnIndex 0 22 0 5 \<lparr>indexList = [0, 1]\<rparr> = Exited d)"
  using returnIndex_unguarded [of 0 0 0 5 "\<lparr>indexList = [0, 1]\<rparr>"]
    returnIndex_unguarded [of 0 22 0 5 "\<lparr>indexList = [0, 1]\<rparr>"]
  by simp

text \<open>
  Claim C7. When a pthread call reports a code \<open>e \<noteq> 0\<close>, its wrapper calls \<open>DIE\<close>, which
  prints the place and the code and ends the process with exit status 1. So every
  function of the pool in which a call that is reached reports an error ends the
  process and does not return to its caller.
\<close>

theorem pthread_failure_fatal:
  assumes "e \<noteq> 0"
  shows "MutexInit e = DIE 25 ''pthread_mutex_init returned %d'' e \<and>
         MutexDestroy e = DIE 33 ''pthread_mutex_destroy returned %d'' e \<and>
         MutexLock e = DIE 41 ''pthread_mutex_lock returned %d'' e \<and>
         MutexUnlock e = DIE 49 ''pthread_mutex_unlock returned %d'' e \<and>
         CondInit e = DIE 57 ''pthread_cond_init returned %d'' e \<and>
         CondDestroy e = DIE 65 ''pthread_cond_destroy returned %d'' e \<and>
         CondSignal e = DIE 73 ''pthread_cond_signal returned %d'' e \<and>
         CondWait e = DIE 81 ''pthread_cond_wait returned %d'' e \<and>
         (\<exists>x. (DIE line fmt e :: unit outcome) = Exited x \<and> exit_code x = 1 \<and>
              map snd (printed x) = [[ArgInt (int line), ArgStr FILE_name], [ArgInt (sint e)]]) \<and>
         (\<exists>x. initializePool n e e_cond p = Exited x) \<and>
         (\<exists>x. initializePool n 0 e p = Exited x) \<and>
         (\<exists>x. destroyPool e e_cond p = Exited x) \<and>
         (\<exists>x. destroyPool 0 e p = Exited x) \<and>
         (\<exists>x. returnIndex e e_signal e_unlock i p = Exited x) \<and>
         (\<exists>x. returnIndex 0 e e_unlock i p = Exited x) \<and>
         (\<exists>x. returnIndex 0 0 e i p = Exited x) \<and>
         (\<exists>x. getIndexBlocking e ws e_unlock p = Exited x) \<and>
         (indexList p = [] \<longrightarrow> (\<exists>x. getIndexBlocking 0 ((e, l) # ws) e_unlock p = Exited x)) \<and>
         (indexList p \<noteq> [] \<longrightarrow> (\<exists>x. getIndexBlocking 0 ws e p = Exited x))"
proof -
  have w: "MutexInit e = DIE 25 ''pthread_mutex_init returned %d'' e"
    "MutexDestroy e = DIE 33 ''pthread_mutex_destroy returned %d'' e"
    "MutexLock e = DIE 41 ''pthread_mutex_lock returned %d'' e"
    "MutexUnlock e = DIE 49 ''pthread_mutex_unlock returned %d'' e"
    "CondInit e = DIE 57 ''pthread_cond_init returned %d'' e"
    "CondDestroy e = DIE 65 ''pthread_cond_destroy returned %d'' e"
    "CondSignal e = DIE 73 ''pthread_cond_signal returned %d'' e"
    "CondWait e = DIE 81 ''pthread_cond_wait returned %d'' e"
    using assms
    by (simp_all add: MutexInit_def MutexDestroy_def MutexLock_def MutexUnlock_def
        CondInit_def CondDestroy_def CondSignal_def CondWait_def)
  note d = obind_DIE and x = DIE_Exited
  have init1: "\<exists>x. initializePool n e e_cond p = Exited x"
    by (simp add: initializePool_def w d x)
  have init2: "\<exists>x. initializePool n 0 e p = Exited x"
    by (simp add: initializePool_def w d x)
  have destroy1: "\<exists>x. destroyPool e e_cond p = Exited x"
    by (simp add: destroyPool_def w d x)
  have destroy2: "\<exists>x. destroyPool 0 e p = Exited x"
    by (simp add: destroyPool_def w d x)
  have ret1: "\<exists>x. returnIndex e e_signal e_unlock i p = Exited x"
    by (simp add: returnIndex_def w d x)
  have ret2: "\<exists>x. returnIndex 0 e e_unlock i p = Exited x"
    by (simp add: returnIndex_def w d x)
  have ret3: "\<exists>x. returnIndex 0 0 e i p = Exited x"
    by (simp add: returnIndex_def w d x)
  have get1: "\<exists>x. getIndexBlocking e ws e_unlock p = Exited x"
    by (simp add: getIndexBlocking_def w d x)
  have get2: "\<exists>x. getIndexBlocking 0 ((e, l) # ws) e_unlock p = Exited x" if "indexList p = []"
    using that by (simp add: getIndexBlocking_def w d x)
  have get3: "\<exists>x. getIndexBlocking 0 ws e p = Exited x" if "indexList p \<noteq> []"
  proof -
    from that obtain v rest where "indexList p = v # rest" by (cases "indexList p") auto
    then show ?thesis
      by (simp add: getIndexBlocking_def wait_loop_nonempty front_def pop_front_def w d x)
  qed
  have die: "\<exists>x. (DIE line fmt e :: unit outcome) = Exited x \<and> exit_code x = 1 \<and>
              map snd (printed x) = [[ArgInt (int line), ArgStr FILE_name], [ArgInt (sint e)]]"
    by (simp add: DIE_def)
  from w die init1 init2 destroy1 destroy2 ret1 ret2 ret3 get1 get2 get3
  show ?thesis by blast
qed

text \<open>The error code 22.\<close>

theorem pthread_failure_fatal_witness:
  "(22 :: cint) \<noteq> 0 \<and>
   MutexInit 22 = Exited \<lparr>printed = [(''Error detected at line %d in %s'' @ [CHR 0x0A],
                                        [ArgInt 25, ArgStr ''queue.cpp'']),
                                      (''pthread_mutex_init returned %d'', [ArgInt 22])],
                           exit_code = 1\<rparr> \<and>
   CondWait 22 = DIE 81 ''pthread_cond_wait returned %d'' 22 \<and>
   (\<exists>x. initializePool 2 22 0 \<lparr>indexList = []\<rparr> = Exited x) \<and>
   (\<exists>x. getIndexBlocking 0 [(22, [])] 0 \<lparr>indexList = []\<rparr> = Exited x)"
proof -
  have ne: "(22 :: cint) \<noteq> 0" by simp
  have m: "DIE 25 ''pthread_mutex_init returned %d'' 22
      = (Exited \<lparr>printed = [(''Error detected at line %d in %s'' @ [CHR 0x0A],
                                        [ArgInt 25, ArgStr ''queue.cpp'']),
                                      (''pthread_mutex_init returned %d'', [ArgInt 22])],
                           exit_code = 1\<rparr> :: unit outcome)"
    by (simp add: DIE_def FILE_name_def)
  have e: "indexList \<lparr>indexList = []\<rparr> = []" by simp
  note f = pthread_failure_fatal [OF ne, of 0 "[]" 2 0 "\<lparr>indexList = []\<rparr>" 0 0 0 "[]" "[]"]
  from f have "MutexInit 22 = DIE 25 ''pthread_mutex_init returned %d'' 22" by blast
  moreover from f have "CondWait 22 = DIE 81 ''pthread_cond_wait returned %d'' 22" by blast
  moreover from f have "\<exists>x. initializePool 2 22 0 \<lparr>indexList = []\<rparr> = Exited x" by blast
  moreover from f e have "\<exists>x. getIndexBlocking 0 [(22, [])] 0 \<lparr>indexList = []\<rparr> = Exited x"
    by blast
  ultimately show ?thesis using ne m by simp
qed

text \<open>
  Claim C8. For every \<open>n \<le> 0\<close> the fill loop does not run: \<open>initializePool n\<close> returns
  normally with an empty list, and a later \<open>getIndexBlocking\<close> finds the list empty and
  does not return, neither when it is never woken nor when every wakeup is spurious.
\<close>

theorem initializePool_nonpositive:
  "n \<le>s 0 \<Longrightarrow>
   initializePool n 0 0 p = Returned (p\<lparr>indexList := []\<rparr>) \<and>
   acquire (p\<lparr>indexList := []\<rparr>) = Blocked \<and>
   ((\<forall>w\<in>set ws. w = (0, [])) \<longrightarrow> getIndexBlocking 0 ws e_unlock (p\<lparr>indexList := []\<rparr>) = Blocked)"
  by (simp add: initializePool_ok ids_upto_nonpos acquire_def getIndexBlocking_def
        wait_loop_spurious)

theorem initializePool_nonpositive_witness:
  "(- 4 :: cint) \<le>s 0 \<and>
   initializePool (- 4) 0 0 \<lparr>indexList = [1]\<rparr> = Returned \<lparr>indexList = []\<rparr> \<and>
   acquire \<lparr>indexList = []\<rparr> = Blocked \<and>
   getIndexBlocking 0 [(0, []), (0, [])] 0 \<lparr>indexList = []\<rparr> = Blocked"
proof -
  have neg: "(- 4 :: cint) \<le>s 0" by (simp add: word_sle_eq)
  from initializePool_nonpositive [OF neg, of "\<lparr>indexList = [1]\<rparr>" "[(0, []), (0, [])]" 0] neg
  show ?thesis by simp
qed

text \<open>
  Claim C9. \<open>initializePool\<close> clears the list before it fills it: whatever list \<open>l\<close> the
  pool held before, the list afterwards is \<open>0, ..., n - 1\<close>, and initializing the result
  once more gives the same result.
\<close>

theorem initializePool_history_free:
  "initializePool n 0 0 (p\<lparr>indexList := l\<rparr>) = Returned (p\<lparr>indexList := ids_upto n\<rparr>) \<and>
   obind (initializePool n 0 0 (p\<lparr>indexList := l\<rparr>)) (initializePool n 0 0)
     = initializePool n 0 0 (p\<lparr>indexList := l\<rparr>)"
  by (simp add: initializePool_ok)

text \<open>
  Claim C10. \<open>returnIndex\<close> checks nothing: for every \<open>int\<close> value \<open>i\<close> and every pool
  state (the pthread calls succeeding) it returns, the new list is the old one with \<open>i\<close>
  appended at the back, one element longer, the old elements unchanged and in place.
\<close>

theorem returnIndex_total:
  "\<exists>p'. returnIndex 0 0 0 i p = Returned p' \<and>
        indexList p' = indexList p @ [i] \<and>
        length (indexList p') = length (indexList p) + 1 \<and>
        take (length (indexList p)) (indexList p') = indexList p \<and>
        last (indexList p') = i"
  by (simp add: returnIndex_ok)

end
